theory Spec2Isabelle
  imports Main "HOL-Library.Word"
begin

section \<open>Data model of \<open>plugin.py\<close>\<close>

text \<open>
  The subprocess output is a Python \<open>bytes\<close> object, the decoded text a Python \<open>str\<close>:
  a sequence of Unicode code points, which do not fit the 8-bit \<open>char\<close> of HOL.
\<close>

type_synonym byte = "8 word"
type_synonym unicode = "nat list"

text \<open>Writing ASCII literals: \<open>str ''foo''\<close> is the text, \<open>bytes ''foo''\<close> its bytes.\<close>

definition str :: "string \<Rightarrow> unicode" where
  "str s = map of_char s"

definition bytes :: "string \<Rightarrow> byte list" where
  "bytes s = map of_char s"

text \<open>The exceptions that the modelled code paths can raise.\<close>

datatype error = UnicodeDecodeError | IndexError

text \<open>
  \<open>sublime.CompletionItem(trigger=word, annotation="ZSH", kind=kind, details=...)\<close> with
  \<open>kind = [sublime.KindId.NAMESPACE, "f", "Filesystem"]\<close>.
\<close>

datatype kind_id = NAMESPACE

record completion_item =
  trigger :: unicode
  annotation :: unicode
  kind :: "kind_id \<times> unicode \<times> unicode"
  details :: unicode

section \<open>Library functions used by \<open>completion_items\<close>\<close>

subsection \<open>\<open>str(data, encoding="utf-8")\<close>\<close>

text \<open>
  Strict UTF-8 decoding, as a scanner over the bytes. \<open>need\<close> is the number of
  continuation bytes still expected, \<open>cp\<close> the code point collected so far, and
  \<open>lo..hi\<close> the range allowed for the next continuation byte (narrower than
  \<open>0x80..0xBF\<close> right after the lead bytes \<open>E0\<close>, \<open>ED\<close>, \<open>F0\<close>, \<open>F4\<close>, which excludes
  overlong forms, surrogates and code points above \<open>0x10FFFF\<close>). Any malformed or
  truncated sequence raises \<open>UnicodeDecodeError\<close>.
\<close>

definition emit :: "nat \<Rightarrow> error + unicode \<Rightarrow> error + unicode" where
  "emit c r = (case r of Inl e \<Rightarrow> Inl e | Inr cs \<Rightarrow> Inr (c # cs))"

fun utf8_scan :: "nat \<Rightarrow> nat \<Rightarrow> byte \<Rightarrow> byte \<Rightarrow> byte list \<Rightarrow> error + unicode" where
  "utf8_scan need cp lo hi [] = (if need = 0 then Inr [] else Inl UnicodeDecodeError)"
| "utf8_scan need cp lo hi (b # bs) =
     (if need = 0 then
        (if b \<le> 0x7F then emit (unat b) (utf8_scan 0 0 0x80 0xBF bs)
         else if 0xC2 \<le> b \<and> b \<le> 0xDF then utf8_scan 1 (unat b - 0xC0) 0x80 0xBF bs
         else if 0xE0 \<le> b \<and> b \<le> 0xEF then
           utf8_scan 2 (unat b - 0xE0)
             (if b = 0xE0 then 0xA0 else 0x80) (if b = 0xED then 0x9F else 0xBF) bs
         else if 0xF0 \<le> b \<and> b \<le> 0xF4 then
           utf8_scan 3 (unat b - 0xF0)
             (if b = 0xF0 then 0x90 else 0x80) (if b = 0xF4 then 0x8F else 0xBF) bs
         else Inl UnicodeDecodeError)
      else if lo \<le> b \<and> b \<le> hi then
        (if need = 1 then emit (cp * 64 + (unat b - 0x80)) (utf8_scan 0 0 0x80 0xBF bs)
         else utf8_scan (need - 1) (cp * 64 + (unat b - 0x80)) 0x80 0xBF bs)
      else Inl UnicodeDecodeError)"

definition utf8_decode :: "byte list \<Rightarrow> error + unicode" where
  "utf8_decode data = utf8_scan 0 0 0x80 0xBF data"

subsection \<open>\<open>str.split\<close>\<close>

text \<open>
  \<open>find_sep sep s\<close> is the leftmost occurrence of \<open>sep\<close> in \<open>s\<close>: the part before it and
  the part after it. Both call sites pass a non-empty literal separator (Python raises
  \<open>ValueError\<close> for an empty one); for an empty separator nothing is found.
\<close>

fun find_sep :: "'a list \<Rightarrow> 'a list \<Rightarrow> ('a list \<times> 'a list) option" where
  "find_sep sep [] = None"
| "find_sep sep (c # cs) =
     (if sep = [] then None
      else if take (length sep) (c # cs) = sep then Some ([], drop (length sep) (c # cs))
      else (case find_sep sep cs of
              None \<Rightarrow> None
            | Some (before, after) \<Rightarrow> Some (c # before, after)))"

lemma find_sep_shorter: "find_sep sep s = Some (before, after) \<Longrightarrow> length after < length s"
proof (induction s arbitrary: before)
  case Nil
  then show ?case by simp
next
  case (Cons c cs)
  show ?case
  proof (cases "sep = [] \<or> take (length sep) (c # cs) = sep")
    case True
    with Cons.prems show ?thesis by (auto split: if_splits)
  next
    case False
    with Cons.prems obtain b where "find_sep sep cs = Some (b, after)"
      by (auto split: option.splits)
    from Cons.IH [OF this] show ?thesis by simp
  qed
qed

text \<open>\<open>s.split(sep)\<close>: all pieces between the non-overlapping occurrences, left to right.\<close>

function split :: "'a list \<Rightarrow> 'a list \<Rightarrow> 'a list list" where
  "split sep s =
     (case find_sep sep s of
        None \<Rightarrow> [s]
      | Some (before, after) \<Rightarrow> before # split sep after)"
  by pat_completeness auto
termination
  by (relation "measure (\<lambda>(sep, s). length s)") (auto dest: find_sep_shorter)

declare split.simps [simp del]

text \<open>\<open>s.split(sep, 1)\<close>: at most one split, so one or two pieces.\<close>

definition split1 :: "'a list \<Rightarrow> 'a list \<Rightarrow> 'a list list" where
  "split1 sep s =
     (case find_sep sep s of
        None \<Rightarrow> [s]
      | Some (before, after) \<Rightarrow> [before, after])"

section \<open>\<open>ZshCompletionListener.completion_items\<close>\<close>

text \<open>
  The body of the \<open>for\<close> loop, with the set \<open>found\<close> threaded through. \<open>known\<close> is the global
  \<open>KNOWN_COMPLETIONS\<close>. \<open>parts\<close> always has one or two elements (\<open>split1_not_empty\<close> below),
  so \<open>parts[0]\<close> never raises.
\<close>

definition zsh_item :: "unicode \<Rightarrow> unicode \<Rightarrow> completion_item" where
  "zsh_item word dtl =
     \<lparr> trigger = word,
       annotation = str ''ZSH'',
       kind = (NAMESPACE, str ''f'', str ''Filesystem''),
       details = dtl \<rparr>"

definition make_item :: "unicode list \<Rightarrow> completion_item" where
  "make_item parts =
     zsh_item (hd parts) (if length parts > 1 then parts ! 1 else str ''file or folder'')"

fun items_loop :: "unicode set \<Rightarrow> unicode set \<Rightarrow> unicode list \<Rightarrow> completion_item list" where
  "items_loop known found [] = []"
| "items_loop known found (line # rest) =
     (let parts = split1 (str '' -- '') line;
          word = hd parts
      in if word \<in> known then items_loop known found rest
         else if word \<in> found then items_loop known found rest
         else make_item parts # items_loop known (insert word found) rest)"

text \<open>
  The generator, as the list of items it yields; the decoding error is raised before the first
  item. The lines are the pieces between the occurrences of \<open>"\r\n"\<close>, the code points 13
  and 10. The argument \<open>prefix\<close> is not used by the body.
\<close>

definition completion_items ::
  "unicode set \<Rightarrow> byte list \<Rightarrow> unicode \<Rightarrow> error + completion_item list" where
  "completion_items known data prefix =
     (case utf8_decode data of
        Inl e \<Rightarrow> Inl e
      | Inr s \<Rightarrow> Inr (items_loop known {} (split [13, 10] s)))"

section \<open>\<open>ZshCompletionListener.on_query_completions\<close>\<close>

text \<open>
  What \<open>subprocess.check_output\<close> does when it is called: it returns the captured output (exit
  code 0), or raises one of the three exceptions that \<open>get_completions\<close> handles.
  \<open>CalledProcessError\<close> carries the non-zero return code. The command line, the working
  directory and the startup information that \<open>get_completions\<close> passes decide which of
  these happens, and nothing else in the function reads them.
\<close>

datatype launch_outcome =
    Returned "byte list option"
  | TimeoutExpired
  | CalledProcessError int
  | FileNotFoundError

text \<open>
  The state that a request reads and writes: the attribute \<open>enabled\<close> of the listener, the
  callbacks handed to \<open>sublime.set_timeout_async\<close> that have not run yet (each one a closure
  \<open>get_completions\<close>, represented by the \<open>prefix\<close> it has captured), the number of calls of
  \<open>subprocess.check_output\<close> made so far, and the lines printed.
\<close>

record session =
  enabled :: bool
  pending :: "unicode list"
  launches :: nat
  console :: "string list"

definition initial :: session where
  "initial = \<lparr> enabled = True, pending = [], launches = 0, console = [] \<rparr>"

text \<open>
  The closure \<open>get_completions\<close>, run on the asynchronous thread. It returns what it has passed
  to \<open>completions_list.set_completions\<close>, if it got that far.
\<close>

definition get_completions ::
  "unicode set \<Rightarrow> unicode \<Rightarrow> launch_outcome \<Rightarrow> session
     \<Rightarrow> (error + completion_item list) option \<times> session" where
  "get_completions known prefix outcome s =
     (let s' = s\<lparr>launches := Suc (launches s)\<rparr>
      in case outcome of
           Returned d \<Rightarrow>
             (let data = (case d of None \<Rightarrow> [] | Some b \<Rightarrow> b)
              in (Some (completion_items known data prefix), s'))
         | TimeoutExpired \<Rightarrow> (None, s')
         | CalledProcessError returncode \<Rightarrow>
             (if returncode \<in> {1, 2}
              then (None, s'\<lparr>enabled := False,
                      console := console s' @
                        [''ZSH Completion initialization failed, disabling completions!'']\<rparr>)
              else (None, s'))
         | FileNotFoundError \<Rightarrow>
             (None, s'\<lparr>enabled := False,
                console := console s' @ [''ZSH not found, disabling completions!'']\<rparr>))"

text \<open>
  A call of \<open>on_query_completions\<close>: the \<open>locations\<close> it is given, what
  \<open>view.match_selector(pt, "source.shell - comment - string.quoted")\<close> answers, and the
  \<open>prefix\<close>. It returns \<open>None\<close>, or schedules \<open>get_completions\<close> and returns the completion
  list that the callback will fill.
\<close>

record query =
  locations :: "nat list"
  match_selector :: "nat \<Rightarrow> bool"
  prefix :: unicode

datatype reply = ReturnedNone | ReturnedCompletionList

definition on_query_completions :: "session \<Rightarrow> query \<Rightarrow> (error + reply) \<times> session" where
  "on_query_completions s q =
     (if \<not> enabled s then (Inr ReturnedNone, s)
      else case locations q of
             [] \<Rightarrow> (Inl IndexError, s)
           | pt # _ \<Rightarrow>
               if \<not> match_selector q pt then (Inr ReturnedNone, s)
               else (Inr ReturnedCompletionList, s\<lparr>pending := pending s @ [prefix q]\<rparr>))"

text \<open>
  The listener over time: the editor calls \<open>on_query_completions\<close>, and the asynchronous thread
  runs the oldest scheduled callback, whose subprocess then ends in some way.
\<close>

datatype event = Query query | Async launch_outcome

fun step :: "unicode set \<Rightarrow> session \<Rightarrow> event \<Rightarrow> session" where
  "step known s (Query q) = snd (on_query_completions s q)"
| "step known s (Async outcome) =
     (case pending s of
        [] \<Rightarrow> s
      | p # rest \<Rightarrow> snd (get_completions known p outcome (s\<lparr>pending := rest\<rparr>)))"

definition run :: "unicode set \<Rightarrow> session \<Rightarrow> event list \<Rightarrow> session" where
  "run known s evs = foldl (step known) s evs"

section \<open>Notions used to state the properties\<close>

text \<open>The word and the item that the loop body computes for one line.\<close>

definition line_word :: "unicode \<Rightarrow> unicode" where
  "line_word line = hd (split1 (str '' -- '') line)"

definition line_item :: "unicode \<Rightarrow> completion_item" where
  "line_item line = make_item (split1 (str '' -- '') line)"

text \<open>The elements of a list in the order of their first appearance, each once.\<close>

fun first_occurrences :: "'a list \<Rightarrow> 'a list" where
  "first_occurrences [] = []"
| "first_occurrences (x # xs) = x # first_occurrences (removeAll x xs)"

text \<open>The same for a key: the first element for each value of \<open>f\<close>.\<close>

fun first_by :: "('a \<Rightarrow> 'b) \<Rightarrow> 'a list \<Rightarrow> 'a list" where
  "first_by f [] = []"
| "first_by f (x # xs) = x # first_by f (filter (\<lambda>y. f y \<noteq> f x) xs)"

text \<open>
  The sentinel lines of the output, as bytes or as decoded text: the lines, between CRLF line
  boundaries, that consist of NUL followed by CR.
\<close>

definition sentinel_lines :: "'a::{zero,numeral} list \<Rightarrow> 'a list list" where
  "sentinel_lines s = filter (\<lambda>line. line = [0, 13]) (split [13, 10] s)"

text \<open>
  A candidate line for an item, in the format of the payload lines: the word alone when the
  details are the fallback text, the word, the separator and the details otherwise.
\<close>

definition item_line :: "completion_item \<Rightarrow> unicode" where
  "item_line i =
     (if details i = str ''file or folder'' then trigger i
      else trigger i @ str '' -- '' @ details i)"

section \<open>The loop of \<open>completion_items\<close>\<close>

lemma split1_not_empty: "split1 sep s \<noteq> []"
  by (simp add: split1_def split: option.split)

lemma trigger_line_item: "trigger (line_item l) = line_word l"
  by (simp add: line_item_def line_word_def make_item_def zsh_item_def)

lemma items_loop_step:
  "items_loop known found (line # rest) =
     (if line_word line \<in> known \<or> line_word line \<in> found then items_loop known found rest
      else line_item line # items_loop known (insert (line_word line) found) rest)"
  by (simp add: line_word_def line_item_def Let_def)

lemma filter_first_by:
  "filter (\<lambda>x. P (f x)) (first_by f xs) = first_by f (filter (\<lambda>x. P (f x)) xs)"
proof (induction f xs rule: first_by.induct)
  case (1 f)
  show ?case by simp
next
  case (2 f x xs)
  show ?case
  proof (cases "P (f x)")
    case True
    have "filter (\<lambda>y. f y \<noteq> f x) (filter (\<lambda>y. P (f y)) xs) =
          filter (\<lambda>y. P (f y)) (filter (\<lambda>y. f y \<noteq> f x) xs)"
      by (simp add: conj_commute)
    with True 2 show ?thesis by simp
  next
    case False
    then have "filter (\<lambda>y. P (f y)) (filter (\<lambda>y. f y \<noteq> f x) xs) = filter (\<lambda>y. P (f y)) xs"
      by (auto intro: filter_cong)
    with False 2 show ?thesis by simp
  qed
qed

text \<open>
  The loop yields the item of the first line for each word that is neither known nor already
  found, in the order of the lines.
\<close>

lemma items_loop_first_by:
  "items_loop known found lines =
     map line_item
       (first_by line_word
          (filter (\<lambda>l. line_word l \<notin> known \<and> line_word l \<notin> found) lines))"
proof (induction lines arbitrary: found)
  case Nil
  show ?case by simp
next
  case (Cons line rest)
  show ?case
  proof (cases "line_word line \<in> known \<or> line_word line \<in> found")
    case True
    then show ?thesis
      using Cons.IH [of found] by (auto simp: items_loop_step simp del: items_loop.simps)
  next
    case False
    have "filter (\<lambda>y. line_word y \<noteq> line_word line)
            (filter (\<lambda>l. line_word l \<notin> known \<and> line_word l \<notin> found) rest) =
          filter (\<lambda>l. line_word l \<notin> known \<and> line_word l \<notin> insert (line_word line) found) rest"
      by (auto intro: filter_cong)
    with False show ?thesis
      using Cons.IH [of "insert (line_word line) found"]
      by (simp add: items_loop_step del: items_loop.simps)
  qed
qed

lemma map_first_by: "map f (first_by f xs) = first_occurrences (map f xs)"
proof (induction f xs rule: first_by.induct)
  case (1 f)
  show ?case by simp
next
  case (2 f x xs)
  have "map f (filter (\<lambda>y. f y \<noteq> f x) xs) = removeAll (f x) (map f xs)"
    by (induction xs) auto
  with 2 show ?case by simp
qed

lemma set_first_occurrences: "set (first_occurrences xs) = set xs"
  by (induction xs rule: first_occurrences.induct) auto

lemma distinct_first_occurrences: "distinct (first_occurrences xs)"
  by (induction xs rule: first_occurrences.induct) (auto simp: set_first_occurrences)

lemma triggers_items_loop:
  "map trigger (items_loop known found lines) =
     first_occurrences (filter (\<lambda>w. w \<notin> known \<and> w \<notin> found) (map line_word lines))"
proof -
  let ?P = "\<lambda>l. line_word l \<notin> known \<and> line_word l \<notin> found"
  have "map trigger (items_loop known found lines) =
        map line_word (first_by line_word (filter ?P lines))"
    by (simp add: items_loop_first_by trigger_line_item cong: map_cong)
  also have "\<dots> = first_occurrences (map line_word (filter ?P lines))"
    by (rule map_first_by)
  also have "map line_word (filter ?P lines) =
             filter (\<lambda>w. w \<notin> known \<and> w \<notin> found) (map line_word lines)"
    by (simp add: filter_map comp_def)
  finally show ?thesis .
qed

section \<open>Properties of the normalizer\<close>

text \<open>
  C5. For every batch of candidate lines and every set of known words, the items that the loop
  yields (starting with \<open>found\<close> empty) have pairwise different words, and none of these words
  is a known word.
\<close>

theorem normalizer_distinct_and_unknown:
  "distinct (map trigger (items_loop known {} lines)) \<and>
   set (map trigger (items_loop known {} lines)) \<inter> known = {}"
  by (auto simp: triggers_items_loop distinct_first_occurrences set_first_occurrences)

text \<open>
  C6. The words of the yielded items are the words of the lines that are not known, each once,
  in the order of their first appearance; nothing is sorted. In particular, lines whose words
  are \<open>a, b, a, c\<close> (three different words) give, with no known words, the words
  \<open>a, b, c\<close> in this order.
\<close>

theorem normalizer_keeps_first_appearance_order:
  "map trigger (items_loop known {} lines) =
     first_occurrences (filter (\<lambda>w. w \<notin> known) (map line_word lines)) \<and>
   (map line_word lines' = [a, b, a, c] \<and> distinct [a, b, c] \<longrightarrow>
      map trigger (items_loop {} {} lines') = [a, b, c])"
  by (auto simp: triggers_items_loop)

theorem normalizer_keeps_first_appearance_order_witness:
  "map line_word [str ''a'', str ''b -- x'', str ''a -- y'', str ''c''] =
     [str ''a'', str ''b'', str ''a'', str ''c''] \<and>
   distinct [str ''a'', str ''b'', str ''c''] \<and>
   map trigger (items_loop {} {} [str ''a'', str ''b -- x'', str ''a -- y'', str ''c'']) =
     [str ''a'', str ''b'', str ''c'']"
proof -
  have words: "map line_word [str ''a'', str ''b -- x'', str ''a -- y'', str ''c''] =
     [str ''a'', str ''b'', str ''a'', str ''c'']"
    by (simp add: line_word_def split1_def str_def)
  have different: "distinct [str ''a'', str ''b'', str ''c'']"
    by (simp add: str_def)
  from normalizer_keeps_first_appearance_order
    [of "{}" "[]" "[str ''a'', str ''b -- x'', str ''a -- y'', str ''c'']"
        "str ''a''" "str ''b''" "str ''c''"]
    words different
  show ?thesis by blast
qed

text \<open>
  C10. The items do not depend on the prefix: on the same bytes and known words, any two
  prefixes give the same result.
\<close>

theorem completion_items_ignores_prefix:
  "completion_items known data p1 = completion_items known data p2"
  by (simp add: completion_items_def)

section \<open>The lines that \<open>completion_items\<close> reads\<close>

lemma filter_items:
  "filter (\<lambda>i. trigger i \<noteq> []) (map line_item ls) =
   map line_item (filter (\<lambda>l. line_word l \<noteq> []) ls)"
  by (simp add: filter_map comp_def trigger_line_item)

lemma items_loop_nonempty_words:
  "filter (\<lambda>i. trigger i \<noteq> []) (items_loop known {} lines) =
     map line_item
       (first_by line_word
          (filter (\<lambda>l. line_word l \<notin> known \<and> line_word l \<noteq> []) lines))"
proof -
  have "filter (\<lambda>i. trigger i \<noteq> []) (items_loop known {} lines) =
        map line_item (filter (\<lambda>l. line_word l \<noteq> [])
          (first_by line_word (filter (\<lambda>l. line_word l \<notin> known) lines)))"
    by (simp add: items_loop_first_by filter_items)
  also have "filter (\<lambda>l. line_word l \<noteq> [])
               (first_by line_word (filter (\<lambda>l. line_word l \<notin> known) lines)) =
             first_by line_word (filter (\<lambda>l. line_word l \<noteq> [])
               (filter (\<lambda>l. line_word l \<notin> known) lines))"
    by (rule filter_first_by [of "\<lambda>w. w \<noteq> []"])
  also have "filter (\<lambda>l. line_word l \<noteq> []) (filter (\<lambda>l. line_word l \<notin> known) lines) =
             filter (\<lambda>l. line_word l \<notin> known \<and> line_word l \<noteq> []) lines"
    by (simp add: conj_commute)
  finally show ?thesis .
qed

lemma set_triggers_items_loop:
  "set (map trigger (items_loop known {} lines)) = line_word ` set lines - known"
  by (auto simp: triggers_items_loop set_first_occurrences)

lemma line_word_sentinel: "line_word [0, 13] = [0, 13]"
  by (simp add: line_word_def split1_def str_def)

lemma sentinel_among_lines:
  assumes "length (sentinel_lines s) = 2"
  shows "[0, 13] \<in> set (split [13, 10] s)"
proof -
  from assms have "sentinel_lines s \<noteq> []" by auto
  then obtain l where "l \<in> set (sentinel_lines s)" by (cases "sentinel_lines s") auto
  then show ?thesis by (auto simp: sentinel_lines_def)
qed

lemma scenario_items:
  "completion_items {}
     ([0, 13, 13, 10] @ bytes ''foo -- a file'' @ [13, 10] @ bytes ''bar'' @
      [13, 10, 0, 13, 13, 10]) [] =
   Inr [zsh_item [0, 13] (str ''file or folder''),
        zsh_item (str ''foo'') (str ''a file''),
        zsh_item (str ''bar'') (str ''file or folder''),
        zsh_item [] (str ''file or folder'')]"
  by code_simp

text \<open>
  C1, as stated, at the bytes of the scenario. The text has two sentinel lines, and
  \<open>completion_items\<close> yields four items: one for the sentinel line, one for each of the two
  lines between the sentinels, and one for the empty piece after the last line break. The
  result is not the list of the two items for \<open>foo\<close> and \<open>bar\<close>.
\<close>

theorem scenario_yields_sentinel_and_empty_items:
  "length (sentinel_lines ([0, 13, 13, 10] @ bytes ''foo -- a file'' @ [13, 10] @ bytes ''bar'' @
      [13, 10, 0, 13, 13, 10])) = 2 \<and>
   completion_items {}
     ([0, 13, 13, 10] @ bytes ''foo -- a file'' @ [13, 10] @ bytes ''bar'' @
      [13, 10, 0, 13, 13, 10]) [] =
   Inr [zsh_item [0, 13] (str ''file or folder''),
        zsh_item (str ''foo'') (str ''a file''),
        zsh_item (str ''bar'') (str ''file or folder''),
        zsh_item [] (str ''file or folder'')] \<and>
   completion_items {}
     ([0, 13, 13, 10] @ bytes ''foo -- a file'' @ [13, 10] @ bytes ''bar'' @
      [13, 10, 0, 13, 13, 10]) [] \<noteq>
   Inr [zsh_item (str ''foo'') (str ''a file''),
        zsh_item (str ''bar'') (str ''file or folder'')]"
proof -
  have "length (sentinel_lines ([0, 13, 13, 10] @ bytes ''foo -- a file'' @ [13, 10] @ bytes ''bar'' @
      [13, 10, 0, 13, 13, 10])) = 2"
    by code_simp
  moreover have "Inr [zsh_item [0, 13] (str ''file or folder''),
        zsh_item (str ''foo'') (str ''a file''),
        zsh_item (str ''bar'') (str ''file or folder''),
        zsh_item [] (str ''file or folder'')] \<noteq>
   (Inr [zsh_item (str ''foo'') (str ''a file''),
        zsh_item (str ''bar'') (str ''file or folder'')] :: error + completion_item list)"
    by simp
  ultimately show ?thesis unfolding scenario_items by (intro conjI refl)
qed

text \<open>
  C1, as the code has it. \<open>completion_items\<close> has no framing; the loop reads every line of the decoded
  text. When the bytes are valid UTF-8 and the text has exactly two sentinel lines, the items
  with a non-empty word are the items of the first line for each non-empty word that is not
  known, over all lines between CRLF boundaries, in the order of the lines; the sentinel word
  is among the words yielded unless it is known. For the bytes of the scenario and no known
  words, the items with a non-empty word are those of the sentinel line, of \<open>foo\<close> with the
  details \<open>a file\<close>, and of \<open>bar\<close> with the fallback details.
\<close>

theorem completion_items_all_lines:
  "(utf8_decode data = Inr s \<and> length (sentinel_lines s) = 2 \<longrightarrow>
      (\<exists>items. completion_items known data pfx = Inr items \<and>
         filter (\<lambda>i. trigger i \<noteq> []) items =
           map line_item
             (first_by line_word
                (filter (\<lambda>l. line_word l \<notin> known \<and> line_word l \<noteq> []) (split [13, 10] s))) \<and>
         ([0, 13] \<notin> known \<longrightarrow> [0, 13] \<in> set (map trigger items)))) \<and>
   (\<exists>items. completion_items {}
        ([0, 13, 13, 10] @ bytes ''foo -- a file'' @ [13, 10] @ bytes ''bar'' @
         [13, 10, 0, 13, 13, 10]) [] = Inr items \<and>
      filter (\<lambda>i. trigger i \<noteq> []) items =
        [zsh_item [0, 13] (str ''file or folder''),
         zsh_item (str ''foo'') (str ''a file''),
         zsh_item (str ''bar'') (str ''file or folder'')])"
proof (intro conjI impI)
  assume a: "utf8_decode data = Inr s \<and> length (sentinel_lines s) = 2"
  then have items: "completion_items known data pfx = Inr (items_loop known {} (split [13, 10] s))"
    by (simp add: completion_items_def)
  from a have "[0, 13] \<in> set (split [13, 10] s)"
    by (simp add: sentinel_among_lines)
  then have "[0, 13] \<in> line_word ` set (split [13, 10] s)"
    using line_word_sentinel by (metis image_eqI)
  then have "[0, 13] \<notin> known \<longrightarrow>
             [0, 13] \<in> set (map trigger (items_loop known {} (split [13, 10] s)))"
    by (simp only: set_triggers_items_loop) simp
  with items show "\<exists>items. completion_items known data pfx = Inr items \<and>
         filter (\<lambda>i. trigger i \<noteq> []) items =
           map line_item
             (first_by line_word
                (filter (\<lambda>l. line_word l \<notin> known \<and> line_word l \<noteq> []) (split [13, 10] s))) \<and>
         ([0, 13] \<notin> known \<longrightarrow> [0, 13] \<in> set (map trigger items))"
    by (simp add: items_loop_nonempty_words)
next
  show "\<exists>items. completion_items {}
        ([0, 13, 13, 10] @ bytes ''foo -- a file'' @ [13, 10] @ bytes ''bar'' @
         [13, 10, 0, 13, 13, 10]) [] = Inr items \<and>
      filter (\<lambda>i. trigger i \<noteq> []) items =
        [zsh_item [0, 13] (str ''file or folder''),
         zsh_item (str ''foo'') (str ''a file''),
         zsh_item (str ''bar'') (str ''file or folder'')]"
    unfolding scenario_items by (simp add: zsh_item_def str_def)
qed

theorem completion_items_all_lines_witness:
  "utf8_decode ([0, 13, 13, 10] @ bytes ''foo -- a file'' @ [13, 10] @ bytes ''bar'' @
                [13, 10, 0, 13, 13, 10]) =
     Inr ([0, 13, 13, 10] @ str ''foo -- a file'' @ [13, 10] @ str ''bar'' @
          [13, 10, 0, 13, 13, 10]) \<and>
   length (sentinel_lines ([0, 13, 13, 10] @ str ''foo -- a file'' @ [13, 10] @ str ''bar'' @
          [13, 10, 0, 13, 13, 10])) = 2 \<and>
   [0, 13] \<notin> ({} :: unicode set) \<and>
   (\<exists>items. completion_items {}
        ([0, 13, 13, 10] @ bytes ''foo -- a file'' @ [13, 10] @ bytes ''bar'' @
         [13, 10, 0, 13, 13, 10]) [] = Inr items \<and>
      [0, 13] \<in> set (map trigger items))"
proof -
  have decoded: "utf8_decode ([0, 13, 13, 10] @ bytes ''foo -- a file'' @ [13, 10] @
                   bytes ''bar'' @ [13, 10, 0, 13, 13, 10]) =
     Inr ([0, 13, 13, 10] @ str ''foo -- a file'' @ [13, 10] @ str ''bar'' @
          [13, 10, 0, 13, 13, 10])"
    by code_simp
  have two: "length (sentinel_lines ([0, 13, 13, 10] @ str ''foo -- a file'' @ [13, 10] @
                str ''bar'' @ [13, 10, 0, 13, 13, 10])) = 2"
    by code_simp
  from completion_items_all_lines
    [of "[0, 13, 13, 10] @ bytes ''foo -- a file'' @ [13, 10] @ bytes ''bar'' @
         [13, 10, 0, 13, 13, 10]"
        "[0, 13, 13, 10] @ str ''foo -- a file'' @ [13, 10] @ str ''bar'' @
         [13, 10, 0, 13, 13, 10]" "{}" "[]"]
    decoded two
  show ?thesis by blast
qed

text \<open>
  C7, as stated, at two byte sequences without a sentinel line. The bytes of \<open>foo\<close> give one
  item, not the empty sequence, and the byte \<open>0xFF\<close>, which is not UTF-8, raises
  \<open>UnicodeDecodeError\<close>.
\<close>

theorem no_sentinel_still_items:
  "sentinel_lines (bytes ''foo'') = [] \<and>
   completion_items {} (bytes ''foo'') [] = Inr [zsh_item (str ''foo'') (str ''file or folder'')] \<and>
   sentinel_lines ([0xFF] :: byte list) = [] \<and>
   completion_items {} [0xFF] [] = Inl UnicodeDecodeError"
  by code_simp

text \<open>
  C7, as the code has it. When the bytes are valid UTF-8 and the text has at most one sentinel line,
  \<open>completion_items\<close> raises no error and yields items for all lines of the text: the
  non-empty words of the items are the non-empty words of the lines that are not known. When
  the bytes are not valid UTF-8, it raises the decoding error.
\<close>

theorem completion_items_without_framing:
  "(utf8_decode data = Inr s \<and> length (sentinel_lines s) \<le> 1 \<longrightarrow>
      (\<exists>items. completion_items known data pfx = Inr items \<and>
         set (map trigger items) - {[]} = line_word ` set (split [13, 10] s) - known - {[]})) \<and>
   (utf8_decode data = Inl e \<longrightarrow> completion_items known data pfx = Inl e)"
  by (auto simp: completion_items_def set_triggers_items_loop simp del: set_map)

theorem completion_items_without_framing_witness:
  "utf8_decode (bytes ''foo'') = Inr (str ''foo'') \<and>
   length (sentinel_lines (str ''foo'')) \<le> 1 \<and>
   (\<exists>items. completion_items {} (bytes ''foo'') [] = Inr items \<and>
      set (map trigger items) - {[]} = {str ''foo''}) \<and>
   utf8_decode [0xFF] = Inl UnicodeDecodeError \<and>
   completion_items {} [0xFF] [] = Inl UnicodeDecodeError"
proof -
  have decoded: "utf8_decode (bytes ''foo'') = Inr (str ''foo'')"
    by code_simp
  have none: "length (sentinel_lines (str ''foo'')) \<le> 1"
    by code_simp
  have lines: "line_word ` set (split [13, 10] (str ''foo'')) - {} - {[]} = {str ''foo''}"
    by (simp add: split.simps str_def line_word_def split1_def)
  have bad: "utf8_decode [0xFF] = Inl UnicodeDecodeError"
    by code_simp
  from completion_items_without_framing [of "bytes ''foo''" "str ''foo''" "{}" "[]"]
       completion_items_without_framing [of "[0xFF]" _ "{}" "[]" UnicodeDecodeError]
       decoded none lines bad
  show ?thesis by simp
qed

section \<open>Candidate lines written back from items\<close>

lemma find_sep_Some_eq: "find_sep sep s = Some (b, a) \<Longrightarrow> s = b @ sep @ a"
proof (induction s arbitrary: b)
  case Nil
  then show ?case by simp
next
  case (Cons c cs)
  show ?case
  proof (cases "take (length sep) (c # cs) = sep")
    case True
    with Cons.prems have "b = []" "a = drop (length sep) (c # cs)"
      by (auto split: if_splits)
    with True show ?thesis by (metis append_Nil append_take_drop_id)
  next
    case False
    with Cons.prems obtain b' where "find_sep sep cs = Some (b', a)" "b = c # b'"
      by (auto split: if_splits option.splits)
    with Cons.IH [of b'] show ?thesis by simp
  qed
qed

lemma take_sep_append:
  "length sep \<le> length xs \<Longrightarrow> take (length sep) (xs @ ys) = take (length sep) xs"
  by simp

lemma find_sep_other_rest:
  "find_sep sep s = Some (b, a) \<Longrightarrow> find_sep sep (b @ sep @ a') = Some (b, a')"
proof (induction s arbitrary: b)
  case Nil
  then show ?case by simp
next
  case (Cons c cs)
  from Cons.prems have ne: "sep \<noteq> []" by (auto split: if_splits)
  show ?case
  proof (cases "take (length sep) (c # cs) = sep")
    case True
    with Cons.prems ne have "b = []" by (auto split: if_splits)
    with ne show ?thesis by (cases sep) auto
  next
    case False
    with Cons.prems ne obtain b' where b': "find_sep sep cs = Some (b', a)" "b = c # b'"
      by (auto split: if_splits option.splits)
    then have cs: "cs = b' @ sep @ a" by (simp add: find_sep_Some_eq)
    have "take (length sep) ((c # b' @ sep) @ a) = take (length sep) (c # b' @ sep)"
      by (rule take_sep_append) simp
    moreover have "take (length sep) ((c # b' @ sep) @ a') = take (length sep) (c # b' @ sep)"
      by (rule take_sep_append) simp
    ultimately have "take (length sep) (c # b' @ sep @ a') \<noteq> sep"
      using False cs by simp
    with ne b' Cons.IH [of b'] show ?thesis by simp
  qed
qed

lemma find_sep_before:
  "find_sep sep s = Some (b, a) \<Longrightarrow> find_sep sep b = None"
proof (induction s arbitrary: b)
  case Nil
  then show ?case by simp
next
  case (Cons c cs)
  from Cons.prems have ne: "sep \<noteq> []" by (auto split: if_splits)
  show ?case
  proof (cases "take (length sep) (c # cs) = sep")
    case True
    with Cons.prems ne have "b = []" by (auto split: if_splits)
    then show ?thesis by simp
  next
    case False
    with Cons.prems ne obtain b' where b': "find_sep sep cs = Some (b', a)" "b = c # b'"
      by (auto split: if_splits option.splits)
    then have cs: "cs = b' @ sep @ a" by (simp add: find_sep_Some_eq)
    have "take (length sep) (c # b') \<noteq> sep"
    proof
      assume eq: "take (length sep) (c # b') = sep"
      from arg_cong [OF eq, of length] have "length sep \<le> length (c # b')"
        by simp
      then have "take (length sep) ((c # b') @ sep @ a) = take (length sep) (c # b')"
        by (rule take_sep_append)
      with eq False cs show False by simp
    qed
    with ne b' Cons.IH [of b'] show ?thesis by simp
  qed
qed

lemma line_item_item_line: "line_item (item_line (line_item l)) = line_item l"
proof (cases "find_sep (str '' -- '') l")
  case None
  then show ?thesis
    by (simp add: line_item_def item_line_def split1_def make_item_def zsh_item_def)
next
  case (Some p)
  obtain w d where p: "p = (w, d)" by (cases p)
  with Some have l: "line_item l = zsh_item w d"
    by (simp add: line_item_def split1_def make_item_def)
  show ?thesis
  proof (cases "d = str ''file or folder''")
    case True
    from Some p have "find_sep (str '' -- '') w = None" by (simp add: find_sep_before)
    with True l show ?thesis
      by (simp add: line_item_def item_line_def split1_def make_item_def zsh_item_def)
  next
    case False
    from Some p have "find_sep (str '' -- '') (w @ str '' -- '' @ d) = Some (w, d)"
      by (simp add: find_sep_other_rest)
    with False l show ?thesis
      by (simp add: line_item_def item_line_def split1_def make_item_def zsh_item_def)
  qed
qed

lemma first_by_distinct: "distinct (map f xs) \<Longrightarrow> first_by f xs = xs"
proof (induction xs)
  case Nil
  show ?case by simp
next
  case (Cons x xs)
  then have "\<forall>y\<in>set xs. f y \<noteq> f x"
    by (metis distinct.simps(2) image_eqI list.simps(9) set_map)
  then have "filter (\<lambda>y. f y \<noteq> f x) xs = xs"
    by (rule filter_True)
  with Cons show ?case by simp
qed

text \<open>
  C8. The normalizer is idempotent. Its items, written back as candidate lines, and normalized
  again with no known words, give the same items in the same order.
\<close>

theorem normalizer_idempotent:
  "items_loop {} {} (map item_line (items_loop known {} lines)) = items_loop known {} lines"
proof -
  let ?items = "items_loop known {} lines"
  obtain ls where items: "?items = map line_item ls"
    by (simp add: items_loop_first_by)
  have again: "map line_item (map item_line ?items) = ?items"
    by (simp add: items line_item_item_line)
  have "map line_word (map item_line ?items) = map trigger (map line_item (map item_line ?items))"
    by (simp add: trigger_line_item)
  also have "\<dots> = map trigger ?items"
    by (simp only: again)
  finally have "distinct (map line_word (map item_line ?items))"
    by (simp add: triggers_items_loop distinct_first_occurrences)
  then have "first_by line_word (map item_line ?items) = map item_line ?items"
    by (rule first_by_distinct)
  then have "items_loop {} {} (map item_line ?items) = map line_item (map item_line ?items)"
    by (simp add: items_loop_first_by)
  with again show ?thesis by simp
qed

section \<open>The session state\<close>

lemma get_completions_enabled:
  "enabled (snd (get_completions known p outcome s)) =
     (enabled s \<and> outcome \<notin> {FileNotFoundError, CalledProcessError 1, CalledProcessError 2})"
  by (cases outcome) (auto simp: get_completions_def Let_def)

lemma step_disabled: "\<not> enabled s \<Longrightarrow> \<not> enabled (step known s ev)"
  by (cases ev) (auto simp: on_query_completions_def get_completions_enabled split: list.splits)

lemma step_idle:
  "\<not> enabled s \<Longrightarrow> pending s = [] \<Longrightarrow>
   pending (step known s ev) = [] \<and> launches (step known s ev) = launches s"
  by (cases ev) (auto simp: on_query_completions_def)

lemma run_disabled: "\<not> enabled s \<Longrightarrow> \<not> enabled (run known s evs)"
  unfolding run_def by (induction evs arbitrary: s) (auto dest: step_disabled)

lemma run_idle:
  "\<not> enabled s \<Longrightarrow> pending s = [] \<Longrightarrow> launches (run known s evs) = launches s"
  unfolding run_def
proof (induction evs arbitrary: s)
  case Nil
  show ?case by simp
next
  case (Cons ev evs)
  from Cons.prems have "\<not> enabled (step known s ev)" "pending (step known s ev) = []"
    "launches (step known s ev) = launches s"
    by (simp_all add: step_disabled step_idle)
  with Cons.IH [of "step known s ev"] show ?case by simp
qed



text \<open>
  C4. A disabled session stays disabled, whatever calls and callbacks follow, and every call of
  \<open>on_query_completions\<close> from then on returns \<open>None\<close> and leaves the session as it is: it
  schedules no callback, so no subprocess is launched for it. If no callback scheduled before
  the disabling is left, no subprocess is launched at all any more.
\<close>

theorem disabled_is_terminal:
  assumes "\<not> enabled s"
  shows "\<not> enabled (run known s evs) \<and>
         on_query_completions (run known s evs) q = (Inr ReturnedNone, run known s evs) \<and>
         (pending s = [] \<longrightarrow> launches (run known s evs) = launches s)"
  using assms run_disabled [of s known evs] run_idle [of s known evs]
  by (simp add: on_query_completions_def)

theorem disabled_is_terminal_witness:
  "\<not> enabled (snd (get_completions {} [] FileNotFoundError initial)) \<and>
   \<not> enabled (run {} (snd (get_completions {} [] FileNotFoundError initial))
                [Query \<lparr>locations = [0], match_selector = (\<lambda>pt. True), prefix = []\<rparr>,
                 Async (Returned (Some []))]) \<and>
   on_query_completions
     (run {} (snd (get_completions {} [] FileNotFoundError initial))
        [Query \<lparr>locations = [0], match_selector = (\<lambda>pt. True), prefix = []\<rparr>,
         Async (Returned (Some []))])
     \<lparr>locations = [0], match_selector = (\<lambda>pt. True), prefix = []\<rparr> =
   (Inr ReturnedNone,
    run {} (snd (get_completions {} [] FileNotFoundError initial))
      [Query \<lparr>locations = [0], match_selector = (\<lambda>pt. True), prefix = []\<rparr>,
       Async (Returned (Some []))]) \<and>
   pending (snd (get_completions {} [] FileNotFoundError initial)) = [] \<and>
   launches (run {} (snd (get_completions {} [] FileNotFoundError initial))
               [Query \<lparr>locations = [0], match_selector = (\<lambda>pt. True), prefix = []\<rparr>,
                Async (Returned (Some []))]) =
   launches (snd (get_completions {} [] FileNotFoundError initial))"
proof -
  have off: "\<not> enabled (snd (get_completions {} [] FileNotFoundError initial))"
    by (simp add: get_completions_def initial_def)
  have idle: "pending (snd (get_completions {} [] FileNotFoundError initial)) = []"
    by (simp add: get_completions_def initial_def)
  from disabled_is_terminal [OF off] off idle show ?thesis by blast
qed

section \<open>The empty last line\<close>

text \<open>
  C2. A subprocess that exits with code 0 and prints nothing: \<open>"".split("\r\n")\<close> is the
  list of one empty line, and the loop yields an item for it. The session stays enabled.
\<close>

theorem empty_output_one_item:
  "get_completions {} [] (Returned (Some [])) initial =
     (Some (Inr [zsh_item [] (str ''file or folder'')]), initial\<lparr>launches := 1\<rparr>)"
  by (simp add: get_completions_def completion_items_def utf8_decode_def split.simps str_def
        split1_def make_item_def initial_def)

text \<open>
  C9. Output that ends with a line break, as every line of the subprocess does: the piece after
  the last line break is the empty line, and the loop yields an item with the empty word.
\<close>

theorem trailing_line_break_empty_word:
  "completion_items {} (bytes ''foo'' @ [13, 10]) [] =
     Inr [zsh_item (str ''foo'') (str ''file or folder''),
          zsh_item [] (str ''file or folder'')]"
  by code_simp

end
